theory Spec2Isabelle
  imports Main "HOL-Library.Sublist"
begin

section \<open>The offline cache worker of service-worker.js\<close>

text \<open>
  The worker script declares three string constants and a manifest, and registers three
  event listeners (fetch, install, activate) on the service worker global scope. The
  listeners hold no state of their own: everything they read and write lives in the
  browser's cache storage, and everything they return is a promise handed to
  \<open>e.respondWith\<close> or \<open>e.waitUntil\<close>. The model below keeps the constants as they are
  written, makes the browser's cache storage and network an explicit world that each handler
  takes and returns, and represents a settled promise by a sum: \<open>Inr v\<close> is a promise
  fulfilled with \<open>v\<close>, \<open>Inl e\<close> one rejected with \<open>e\<close>. Calls to \<open>console.log\<close> are
  left out: they touch neither the cache storage nor the network.
\<close>

subsection \<open>Constants (lines 1 to 18)\<close>

definition APP_PREFIX :: string where
  "APP_PREFIX = ''FoodFest-''"

definition VERSION :: string where
  "VERSION = ''version_01''"

definition CACHE_NAME :: string where
  "CACHE_NAME = APP_PREFIX @ VERSION"

definition FILES_TO_CACHE :: "string list" where
  "FILES_TO_CACHE =
     [''./index.html'',
      ''./events.html'',
      ''./tickets.html'',
      ''./schedule.html'',
      ''./assets/css/style.css'',
      ''./assets/css/bootstrap.css'',
      ''./assets/css/tickets.css'',
      ''./dist/app.bundle.js'',
      ''./dist/events.bundle.js'',
      ''./dist/tickets.bundle.js'',
      ''./dist/schedule.bundle.js'']"

subsection \<open>JavaScript primitives used by the listeners\<close>

text \<open>
  \<open>String.prototype.indexOf\<close>: the index of the first occurrence of the pattern in the
  string, or \<open>-1\<close> when there is none. The empty pattern occurs at index 0.
\<close>

fun indexOf_from :: "string \<Rightarrow> string \<Rightarrow> int \<Rightarrow> int" where
  "indexOf_from [] p i = (if p = [] then i else -1)"
| "indexOf_from (c # cs) p i = (if prefix p (c # cs) then i else indexOf_from cs p (i + 1))"

definition string_indexOf :: "string \<Rightarrow> string \<Rightarrow> int" where
  "string_indexOf s p = indexOf_from s p 0"

text \<open>
  A number used as a condition (here: as the result of a \<open>filter\<close> callback) is truthy
  unless it is zero. In particular \<open>-1\<close> is truthy.
\<close>

definition truthy :: "int \<Rightarrow> bool" where
  "truthy n = (n \<noteq> 0)"

text \<open>\<open>Array.prototype.indexOf\<close>: the first index holding the element, or \<open>-1\<close>.\<close>

fun array_indexOf_from :: "'a list \<Rightarrow> 'a \<Rightarrow> int \<Rightarrow> int" where
  "array_indexOf_from [] x i = -1"
| "array_indexOf_from (y # ys) x i = (if y = x then i else array_indexOf_from ys x (i + 1))"

definition array_indexOf :: "'a list \<Rightarrow> 'a \<Rightarrow> int" where
  "array_indexOf xs x = array_indexOf_from xs x 0"

text \<open>
  \<open>Promise.all\<close> over promises that have settled: fulfilled with the list of values when
  all are fulfilled, rejected with the first rejection otherwise.
\<close>

datatype error = NetworkError | TypeError | StorageError

type_synonym 'a promise = "error + 'a"

fun promise_all :: "'a promise list \<Rightarrow> 'a list promise" where
  "promise_all [] = Inr []"
| "promise_all (p # ps) =
     (case p of
        Inl e \<Rightarrow> Inl e
      | Inr v \<Rightarrow> (case promise_all ps of Inl e \<Rightarrow> Inl e | Inr vs \<Rightarrow> Inr (v # vs)))"

subsection \<open>The host: cache storage and network\<close>

record request =
  url :: string
  http_method :: string

record response =
  status :: nat
  body :: string

text \<open>
  A cache is an ordered list of stored request and response pairs; the cache storage is an
  ordered list of named caches (\<open>caches.keys()\<close> lists the names in this order, and
  \<open>caches.match\<close> searches the caches in this order). The world also records every
  request handed to the network and every cache name handed to \<open>caches.delete\<close>.
\<close>

type_synonym cache = "(request \<times> response) list"

record world =
  caches :: "(string \<times> cache) list"
  net_log :: "request list"
  delete_log :: "string list"

text \<open>
  What the environment answers: the network's result for a request, and whether deleting a
  named cache fails in the storage layer.
\<close>

record host =
  network :: "request \<Rightarrow> response promise"
  delete_fails :: "string \<Rightarrow> bool"

definition fetch :: "host \<Rightarrow> request \<Rightarrow> world \<Rightarrow> response promise \<times> world" where
  "fetch h r w = (network h r, w\<lparr>net_log := net_log w @ [r]\<rparr>)"

text \<open>\<open>Cache.match\<close> with default options: only a GET request matches a stored entry.\<close>

definition cache_match :: "cache \<Rightarrow> request \<Rightarrow> response option" where
  "cache_match c r = (if http_method r = ''GET'' then map_of c r else None)"

text \<open>\<open>caches.match\<close>: the first match over all caches of the storage, in order.\<close>

fun caches_match :: "(string \<times> cache) list \<Rightarrow> request \<Rightarrow> response option" where
  "caches_match [] r = None"
| "caches_match ((n, c) # cs) r =
     (case cache_match c r of Some resp \<Rightarrow> Some resp | None \<Rightarrow> caches_match cs r)"

definition caches_keys :: "world \<Rightarrow> string list" where
  "caches_keys w = map fst (caches w)"

text \<open>\<open>caches.open\<close>: the named cache, created empty at the end of the storage if absent.\<close>

definition caches_open :: "string \<Rightarrow> world \<Rightarrow> world" where
  "caches_open name w =
     (if name \<in> set (caches_keys w) then w else w\<lparr>caches := caches w @ [(name, [])]\<rparr>)"

definition response_ok :: "response \<Rightarrow> bool" where
  "response_ok resp = (200 \<le> status resp \<and> status resp \<le> 299)"

definition get_request :: "string \<Rightarrow> request" where
  "get_request u = \<lparr>url = u, http_method = ''GET''\<rparr>"

text \<open>
  The fetching half of \<open>Cache.addAll\<close>: every request must come back with an ok response;
  a network failure or a status outside 200 to 299 rejects the whole operation.
\<close>

fun fetch_all :: "host \<Rightarrow> request list \<Rightarrow> (request \<times> response) list promise" where
  "fetch_all h [] = Inr []"
| "fetch_all h (r # rs) =
     (case network h r of
        Inl e \<Rightarrow> Inl e
      | Inr resp \<Rightarrow>
          if \<not> response_ok resp then Inl TypeError
          else (case fetch_all h rs of Inl e \<Rightarrow> Inl e | Inr kvs \<Rightarrow> Inr ((r, resp) # kvs)))"

text \<open>Storing an entry replaces the entries stored under the same request.\<close>

definition cache_put :: "request \<Rightarrow> response \<Rightarrow> cache \<Rightarrow> cache" where
  "cache_put k v c = filter (\<lambda>e. fst e \<noteq> k) c @ [(k, v)]"

fun put_all :: "(request \<times> response) list \<Rightarrow> cache \<Rightarrow> cache" where
  "put_all [] c = c"
| "put_all ((k, v) # kvs) c = put_all kvs (cache_put k v c)"

definition update_cache ::
  "string \<Rightarrow> (cache \<Rightarrow> cache) \<Rightarrow> (string \<times> cache) list \<Rightarrow> (string \<times> cache) list" where
  "update_cache name f cs = map (\<lambda>e. if fst e = name then (fst e, f (snd e)) else e) cs"

text \<open>
  \<open>cache.addAll(urls)\<close> on the cache called \<open>name\<close>: all requests are issued; the
  responses are stored only when every one of them is ok.
\<close>

definition cache_addAll :: "host \<Rightarrow> string \<Rightarrow> string list \<Rightarrow> world \<Rightarrow> unit promise \<times> world" where
  "cache_addAll h name urls w =
     (let reqs = map get_request urls;
          w1 = w\<lparr>net_log := net_log w @ reqs\<rparr>
      in case fetch_all h reqs of
           Inl e \<Rightarrow> (Inl e, w1)
         | Inr kvs \<Rightarrow> (Inr (), w1\<lparr>caches := update_cache name (put_all kvs) (caches w1)\<rparr>))"

text \<open>
  \<open>caches.delete(name)\<close>: the call is recorded; unless the storage layer fails, the named
  cache is removed and the promise is fulfilled with whether it existed.
\<close>

definition caches_delete :: "host \<Rightarrow> string \<Rightarrow> world \<Rightarrow> bool promise \<times> world" where
  "caches_delete h name w =
     (let w1 = w\<lparr>delete_log := delete_log w @ [name]\<rparr>
      in if delete_fails h name then (Inl StorageError, w1)
         else (Inr (name \<in> set (caches_keys w)),
               w1\<lparr>caches := filter (\<lambda>e. fst e \<noteq> name) (caches w1)\<rparr>))"

subsection \<open>The fetch listener (lines 21 to 39)\<close>

definition handle_fetch :: "host \<Rightarrow> request \<Rightarrow> world \<Rightarrow> response promise \<times> world" where
  "handle_fetch h r w =
     (case caches_match (caches w) r of
        Some resp \<Rightarrow> (Inr resp, w)
      | None \<Rightarrow> fetch h r w)"

subsection \<open>The install listener (lines 42 to 51)\<close>

definition handle_install :: "host \<Rightarrow> world \<Rightarrow> unit promise \<times> world" where
  "handle_install h w = cache_addAll h CACHE_NAME FILES_TO_CACHE (caches_open CACHE_NAME w)"

subsection \<open>The activate listener (lines 54 to 75)\<close>

text \<open>The keep list: the filtered key list with the current cache name pushed at its end.\<close>

definition cacheKeeplist :: "string list \<Rightarrow> string list" where
  "cacheKeeplist keyList =
     filter (\<lambda>key. truthy (string_indexOf key APP_PREFIX)) keyList @ [CACHE_NAME]"

text \<open>
  The callback of \<open>keyList.map\<close>: a key missing from the keep list is deleted and the
  callback returns the promise of \<open>caches.delete\<close>; for any other key it returns
  \<open>undefined\<close> (here \<open>None\<close>), which \<open>Promise.all\<close> treats as a fulfilled value.
\<close>

definition delete_unless_kept ::
  "host \<Rightarrow> string list \<Rightarrow> string \<Rightarrow> world \<Rightarrow> bool option promise \<times> world" where
  "delete_unless_kept h keep key w =
     (if array_indexOf keep key = -1
      then (case caches_delete h key w of (p, w') \<Rightarrow> (map_sum id Some p, w'))
      else (Inr None, w))"

text \<open>\<open>keyList.map\<close> runs the callback on each key in order, one after the other.\<close>

fun map_keys ::
  "host \<Rightarrow> string list \<Rightarrow> string list \<Rightarrow> world \<Rightarrow> bool option promise list \<times> world" where
  "map_keys h keep [] w = ([], w)"
| "map_keys h keep (key # keys) w =
     (case delete_unless_kept h keep key w of
        (p, w1) \<Rightarrow> (case map_keys h keep keys w1 of (ps, w2) \<Rightarrow> (p # ps, w2)))"

definition handle_activate :: "host \<Rightarrow> world \<Rightarrow> bool option list promise \<times> world" where
  "handle_activate h w =
     (let keyList = caches_keys w;
          keep = cacheKeeplist keyList
      in case map_keys h keep keyList w of (ps, w') \<Rightarrow> (promise_all ps, w'))"

text \<open>
  An observation used to state what a run of activate deletes: the cache names that this
  run handed to \<open>caches.delete\<close>, in order, read off the end of the deletion log.
\<close>

definition deleted_by_activate :: "host \<Rightarrow> world \<Rightarrow> string list" where
  "deleted_by_activate h w = drop (length (delete_log w)) (delete_log (snd (handle_activate h w)))"

subsection \<open>Example hosts and worlds\<close>

text \<open>
  Concrete environments on which the properties below are exercised: a host whose network
  is down, one that serves every request, one that serves everything but the tickets page,
  one whose storage refuses every deletion; a fresh world, the world after an install of a
  two-file manifest, and a world holding three named caches.
\<close>

definition page :: response where
  "page = \<lparr>status = 200, body = ''<html></html>''\<rparr>"

definition offline_host :: host where
  "offline_host = \<lparr>network = (\<lambda>r. Inl NetworkError), delete_fails = (\<lambda>name. False)\<rparr>"

definition online_host :: host where
  "online_host = \<lparr>network = (\<lambda>r. Inr page), delete_fails = (\<lambda>name. False)\<rparr>"

definition flaky_host :: host where
  "flaky_host =
     \<lparr>network = (\<lambda>r. if url r = ''./tickets.html'' then Inl NetworkError else Inr page),
      delete_fails = (\<lambda>name. False)\<rparr>"

definition readonly_host :: host where
  "readonly_host = \<lparr>network = (\<lambda>r. Inr page), delete_fails = (\<lambda>name. True)\<rparr>"

definition fresh_world :: world where
  "fresh_world = \<lparr>caches = [], net_log = [], delete_log = []\<rparr>"

definition installed_world :: world where
  "installed_world =
     \<lparr>caches =
        [(''FoodFest-version_01'',
          [(get_request ''./index.html'', page), (get_request ''./dist/app.bundle.js'', page)])],
      net_log = [], delete_log = []\<rparr>"

definition three_caches_world :: world where
  "three_caches_world =
     \<lparr>caches =
        [(''FoodFest-version_01'', [(get_request ''./index.html'', page)]),
         (''FoodFest-version_02'', [(get_request ''./index.html'', page)]),
         (''other-app-cache'', [(get_request ''./other.html'', page)])],
      net_log = [], delete_log = []\<rparr>"

section \<open>Properties\<close>

subsection \<open>Facts about the primitives\<close>

lemma caches_match_Some:
  "caches_match cs r = Some resp \<Longrightarrow> \<exists>e \<in> set cs. cache_match (snd e) r = Some resp"
  by (induction cs) (auto split: option.splits)

lemma caches_match_None:
  "caches_match cs r = None \<longleftrightarrow> (\<forall>e \<in> set cs. cache_match (snd e) r = None)"
  by (induction cs) (auto split: option.splits)

lemma update_cache_keys: "map fst (update_cache name f cs) = map fst cs"
  by (induction cs) (auto simp: update_cache_def)

lemma caches_keys_open:
  "caches_keys (caches_open name w) =
     (if name \<in> set (caches_keys w) then caches_keys w else caches_keys w @ [name])"
  by (simp add: caches_open_def caches_keys_def)

lemma caches_keys_addAll: "caches_keys (snd (cache_addAll h name urls w)) = caches_keys w"
  by (simp add: cache_addAll_def caches_keys_def update_cache_keys Let_def split: sum.splits)

lemma caches_keys_install:
  "caches_keys (snd (handle_install h w)) = caches_keys (caches_open CACHE_NAME w)"
  by (simp add: handle_install_def caches_keys_addAll)

subsection \<open>Facts about install\<close>

lemma fetch_all_Inr_iff:
  "(\<exists>kvs. fetch_all h rs = Inr kvs) \<longleftrightarrow>
     (\<forall>r \<in> set rs. \<exists>resp. network h r = Inr resp \<and> response_ok resp)"
  by (induction rs) (auto split: sum.splits)

lemma fetch_all_Inr_entries:
  "fetch_all h rs = Inr kvs \<Longrightarrow>
     map fst kvs = rs \<and> (\<forall>e \<in> set kvs. network h (fst e) = Inr (snd e) \<and> response_ok (snd e))"
  by (induction rs arbitrary: kvs) (auto split: sum.splits if_splits)

lemma map_of_cache_put:
  "map_of (cache_put k v c) k' = (if k' = k then Some v else map_of c k')"
  by (induction c) (auto simp: cache_put_def)

lemma map_of_put_all_other:
  "k \<notin> fst ` set kvs \<Longrightarrow> map_of (put_all kvs c) k = map_of c k"
  by (induction kvs arbitrary: c) (auto simp: map_of_cache_put)

lemma map_of_put_all_stored:
  "distinct (map fst kvs) \<Longrightarrow> (k, v) \<in> set kvs \<Longrightarrow> map_of (put_all kvs c) k = Some v"
proof (induction kvs arbitrary: c)
  case Nil
  then show ?case by simp
next
  case (Cons e kvs)
  obtain k' v' where e: "e = (k', v')" by (cases e)
  show ?case
  proof (cases "(k, v) \<in> set kvs")
    case True
    with Cons e show ?thesis by simp
  next
    case False
    with Cons.prems e have kv: "k = k'" "v = v'" by auto
    with Cons.prems e have "k \<notin> fst ` set kvs" by auto
    with kv e show ?thesis by (simp add: map_of_put_all_other map_of_cache_put)
  qed
qed

lemma map_of_update_cache:
  "map_of (update_cache name f cs) n =
     (if n = name then map_option f (map_of cs n) else map_of cs n)"
  by (induction cs) (auto simp: update_cache_def)

lemma filter_update_cache_other:
  "filter (\<lambda>e. fst e \<noteq> name) (update_cache name f cs) = filter (\<lambda>e. fst e \<noteq> name) cs"
  by (induction cs) (auto simp: update_cache_def)

lemma distinct_FILES_TO_CACHE: "distinct FILES_TO_CACHE"
  by (simp add: FILES_TO_CACHE_def)

lemma map_of_open_current:
  "\<exists>c. map_of (caches (caches_open name w)) name = Some c"
proof (cases "name \<in> set (caches_keys w)")
  case True
  then have "map_of (caches w) name \<noteq> None"
    by (simp add: caches_keys_def map_of_eq_None_iff)
  with True show ?thesis by (auto simp: caches_open_def)
next
  case False
  then have "map_of (caches w) name = None"
    by (simp add: caches_keys_def map_of_eq_None_iff)
  with False show ?thesis by (simp add: caches_open_def map_add_def)
qed

lemma map_of_open_other:
  "n \<noteq> name \<Longrightarrow> map_of (caches (caches_open name w)) n = map_of (caches w) n"
  by (simp add: caches_open_def map_add_def split: option.splits)

lemma filter_open_other:
  "filter (\<lambda>e. fst e \<noteq> name) (caches (caches_open name w)) = filter (\<lambda>e. fst e \<noteq> name) (caches w)"
  by (simp add: caches_open_def)

lemma addAll_fulfilled:
  "fetch_all h (map get_request urls) = Inr kvs \<Longrightarrow>
     cache_addAll h name urls w =
       (Inr (), w\<lparr>net_log := net_log w @ map get_request urls,
                    caches := update_cache name (put_all kvs) (caches w)\<rparr>)"
  by (simp add: cache_addAll_def)

lemma addAll_net_log:
  "net_log (snd (cache_addAll h name urls w)) = net_log w @ map get_request urls"
  by (simp add: cache_addAll_def Let_def split: sum.splits)

lemma addAll_fulfilled_iff:
  "fst (cache_addAll h name urls w) = Inr () \<longleftrightarrow>
     (\<forall>u \<in> set urls. \<exists>resp. network h (get_request u) = Inr resp \<and> response_ok resp)"
proof -
  have "fst (cache_addAll h name urls w) = Inr () \<longleftrightarrow>
      (\<exists>kvs. fetch_all h (map get_request urls) = Inr kvs)"
    by (auto simp: cache_addAll_def Let_def split: sum.splits)
  then show ?thesis
    by (simp add: fetch_all_Inr_iff)
qed

lemma addAll_other_caches:
  "filter (\<lambda>e. fst e \<noteq> name) (caches (snd (cache_addAll h name urls w)))
     = filter (\<lambda>e. fst e \<noteq> name) (caches w)"
  by (simp add: cache_addAll_def Let_def filter_update_cache_other split: sum.splits)

lemma addAll_other_lookup:
  "n \<noteq> name \<Longrightarrow> map_of (caches (snd (cache_addAll h name urls w))) n = map_of (caches w) n"
  by (simp add: cache_addAll_def Let_def map_of_update_cache split: sum.splits)

lemma addAll_stores:
  assumes ok: "fst (cache_addAll h name urls w) = Inr ()"
    and dist: "distinct urls"
    and c0: "map_of (caches w) name = Some c0"
    and u: "u \<in> set urls"
  shows "\<exists>c resp. map_of (caches (snd (cache_addAll h name urls w))) name = Some c
           \<and> network h (get_request u) = Inr resp \<and> response_ok resp
           \<and> map_of c (get_request u) = Some resp"
proof -
  from ok obtain kvs where kvs: "fetch_all h (map get_request urls) = Inr kvs"
    by (auto simp: cache_addAll_def Let_def split: sum.splits)
  from fetch_all_Inr_entries [OF kvs]
  have keys: "map fst kvs = map get_request urls"
    and each: "\<forall>e \<in> set kvs. network h (fst e) = Inr (snd e) \<and> response_ok (snd e)"
    by simp_all
  from dist have dk: "distinct (map fst kvs)"
    unfolding keys by (simp add: distinct_map inj_on_def get_request_def)
  from u have "get_request u \<in> set (map fst kvs)"
    unfolding keys by simp
  then obtain resp where mem: "(get_request u, resp) \<in> set kvs"
    by auto
  with each have net: "network h (get_request u) = Inr resp" "response_ok resp"
    by auto
  have "map_of (caches (snd (cache_addAll h name urls w))) name = Some (put_all kvs c0)"
    by (simp add: addAll_fulfilled [OF kvs] map_of_update_cache c0)
  moreover have "map_of (put_all kvs c0) (get_request u) = Some resp"
    by (rule map_of_put_all_stored [OF dk mem])
  ultimately show ?thesis using net by blast
qed

lemma addAll_rejected_caches:
  "fst (cache_addAll h name urls w) \<noteq> Inr () \<Longrightarrow> caches (snd (cache_addAll h name urls w)) = caches w"
  by (auto simp: cache_addAll_def Let_def split: sum.splits)

subsection \<open>Facts about activate\<close>

lemma indexOf_from_range:
  "0 \<le> i \<Longrightarrow> indexOf_from s p i = -1 \<or> i \<le> indexOf_from s p i"
proof (induction s arbitrary: i)
  case Nil
  then show ?case by simp
next
  case (Cons c cs)
  from Cons.IH [of "i + 1"] Cons.prems show ?case by auto
qed

lemma indexOf_from_start:
  assumes "0 \<le> i"
  shows "indexOf_from s p i = i \<longleftrightarrow> prefix p s"
proof (cases s)
  case Nil
  with assms show ?thesis by auto
next
  case (Cons c cs)
  from indexOf_from_range [of "i + 1" cs p] assms
  have "indexOf_from cs p (i + 1) \<noteq> i" by auto
  with Cons show ?thesis by simp
qed

lemma indexOf_from_absent:
  "0 \<le> i \<Longrightarrow> indexOf_from s p i = -1 \<longleftrightarrow> \<not> sublist p s"
proof (induction s arbitrary: i)
  case Nil
  then show ?case by auto
next
  case (Cons c cs)
  from Cons.IH [of "i + 1"] Cons.prems show ?case
    by (auto simp: sublist_Cons_right)
qed

lemma string_indexOf_zero: "string_indexOf s p = 0 \<longleftrightarrow> prefix p s"
  by (simp add: string_indexOf_def indexOf_from_start)

lemma string_indexOf_absent: "string_indexOf s p = -1 \<longleftrightarrow> \<not> sublist p s"
  by (simp add: string_indexOf_def indexOf_from_absent)

lemma string_indexOf_positive: "0 < string_indexOf s p \<longleftrightarrow> sublist p s \<and> \<not> prefix p s"
proof -
  from indexOf_from_range [of 0 s p]
  have "string_indexOf s p = -1 \<or> 0 \<le> string_indexOf s p"
    by (simp add: string_indexOf_def)
  then show ?thesis
    using string_indexOf_zero [of s p] string_indexOf_absent [of s p] by auto
qed

lemma array_indexOf_from_range:
  "0 \<le> i \<Longrightarrow> array_indexOf_from xs x i = -1 \<or> i \<le> array_indexOf_from xs x i"
proof (induction xs arbitrary: i)
  case Nil
  then show ?case by simp
next
  case (Cons y ys)
  from Cons.IH [of "i + 1"] Cons.prems show ?case by auto
qed

lemma array_indexOf_from_absent:
  "0 \<le> i \<Longrightarrow> array_indexOf_from xs x i = -1 \<longleftrightarrow> x \<notin> set xs"
proof (induction xs arbitrary: i)
  case Nil
  then show ?case by simp
next
  case (Cons y ys)
  from Cons.IH [of "i + 1"] Cons.prems show ?case by auto
qed

lemma array_indexOf_absent: "array_indexOf xs x = -1 \<longleftrightarrow> x \<notin> set xs"
  by (simp add: array_indexOf_def array_indexOf_from_absent)

lemma cacheKeeplist_filter:
  "cacheKeeplist keyList = filter (\<lambda>key. \<not> prefix APP_PREFIX key) keyList @ [CACHE_NAME]"
  by (simp add: cacheKeeplist_def truthy_def string_indexOf_zero)

lemma not_kept_iff:
  "array_indexOf (cacheKeeplist keyList) key = -1 \<longleftrightarrow>
     (key \<notin> set keyList \<or> prefix APP_PREFIX key) \<and> key \<noteq> CACHE_NAME"
  by (auto simp: array_indexOf_absent cacheKeeplist_filter)

lemma delete_set_filter:
  "filter (\<lambda>key. array_indexOf (cacheKeeplist keyList) key = -1) keyList
     = filter (\<lambda>key. prefix APP_PREFIX key \<and> key \<noteq> CACHE_NAME) keyList"
  by (rule filter_cong) (auto simp: not_kept_iff)

lemma delete_unless_kept_delete_log:
  "delete_log (snd (delete_unless_kept h keep key w))
     = delete_log w @ (if array_indexOf keep key = -1 then [key] else [])"
  by (simp add: delete_unless_kept_def caches_delete_def Let_def)

lemma delete_unless_kept_net_log: "net_log (snd (delete_unless_kept h keep key w)) = net_log w"
  by (simp add: delete_unless_kept_def caches_delete_def Let_def)

lemma delete_unless_kept_caches:
  "caches (snd (delete_unless_kept h keep key w))
     = filter (\<lambda>e. \<not> (fst e = key \<and> array_indexOf keep key = -1 \<and> \<not> delete_fails h key))
         (caches w)"
  by (simp add: delete_unless_kept_def caches_delete_def Let_def)

lemma delete_unless_kept_fulfilled:
  "(\<exists>v. fst (delete_unless_kept h keep key w) = Inr v) \<longleftrightarrow>
     (array_indexOf keep key = -1 \<longrightarrow> \<not> delete_fails h key)"
  by (simp add: delete_unless_kept_def caches_delete_def Let_def)

lemma map_keys_Cons_snd:
  "snd (map_keys h keep (key # keys) w)
     = snd (map_keys h keep keys (snd (delete_unless_kept h keep key w)))"
  by (simp split: prod.splits)

lemma map_keys_Cons_fst:
  "fst (map_keys h keep (key # keys) w)
     = fst (delete_unless_kept h keep key w)
       # fst (map_keys h keep keys (snd (delete_unless_kept h keep key w)))"
  by (simp split: prod.splits)

lemma map_keys_delete_log:
  "delete_log (snd (map_keys h keep keys w))
     = delete_log w @ filter (\<lambda>key. array_indexOf keep key = -1) keys"
proof (induction keys arbitrary: w)
  case Nil
  then show ?case by simp
next
  case (Cons key keys)
  show ?case
    unfolding map_keys_Cons_snd Cons.IH delete_unless_kept_delete_log by simp
qed

lemma map_keys_net_log: "net_log (snd (map_keys h keep keys w)) = net_log w"
proof (induction keys arbitrary: w)
  case Nil
  then show ?case by simp
next
  case (Cons key keys)
  show ?case
    unfolding map_keys_Cons_snd Cons.IH delete_unless_kept_net_log by simp
qed

lemma map_keys_caches:
  "caches (snd (map_keys h keep keys w))
     = filter (\<lambda>e. \<not> (fst e \<in> set keys \<and> array_indexOf keep (fst e) = -1
                        \<and> \<not> delete_fails h (fst e))) (caches w)"
proof (induction keys arbitrary: w)
  case Nil
  then show ?case by simp
next
  case (Cons key keys)
  show ?case
    unfolding map_keys_Cons_snd Cons.IH delete_unless_kept_caches filter_filter
    by (rule filter_cong) auto
qed

lemma map_keys_length: "length (fst (map_keys h keep keys w)) = length keys"
proof (induction keys arbitrary: w)
  case Nil
  then show ?case by simp
next
  case (Cons key keys)
  show ?case
    unfolding map_keys_Cons_fst by (simp add: Cons.IH)
qed

lemma promise_all_Cons_fulfilled:
  "(\<exists>vs. promise_all (p # ps) = Inr vs) \<longleftrightarrow> (\<exists>v. p = Inr v) \<and> (\<exists>vs. promise_all ps = Inr vs)"
  by (auto split: sum.splits)

lemma map_keys_fulfilled:
  "(\<exists>vs. promise_all (fst (map_keys h keep keys w)) = Inr vs) \<longleftrightarrow>
     (\<forall>key \<in> set keys. array_indexOf keep key = -1 \<longrightarrow> \<not> delete_fails h key)"
proof (induction keys arbitrary: w)
  case Nil
  then show ?case by simp
next
  case (Cons key keys)
  show ?case
    unfolding map_keys_Cons_fst promise_all_Cons_fulfilled Cons.IH delete_unless_kept_fulfilled
    by simp
qed

lemma promise_all_length: "promise_all ps = Inr vs \<Longrightarrow> length vs = length ps"
  by (induction ps arbitrary: vs) (auto split: sum.splits)

lemma activate_world:
  "snd (handle_activate h w) = snd (map_keys h (cacheKeeplist (caches_keys w)) (caches_keys w) w)"
  by (simp add: handle_activate_def Let_def split: prod.splits)

lemma activate_outcome:
  "fst (handle_activate h w)
     = promise_all (fst (map_keys h (cacheKeeplist (caches_keys w)) (caches_keys w) w))"
  by (simp add: handle_activate_def Let_def split: prod.splits)

lemma map_of_filter_keep:
  "(\<And>v. P (k, v)) \<Longrightarrow> map_of (filter P cs) k = map_of cs k"
  by (induction cs) auto

lemma deleted_by_activate_eq:
  "deleted_by_activate h w
     = filter (\<lambda>key. array_indexOf (cacheKeeplist (caches_keys w)) key = -1) (caches_keys w)"
  by (simp add: deleted_by_activate_def activate_world map_keys_delete_log)

lemma activate_caches:
  "caches (snd (handle_activate h w))
     = filter (\<lambda>e. \<not> (prefix APP_PREFIX (fst e) \<and> fst e \<noteq> CACHE_NAME \<and> \<not> delete_fails h (fst e)))
         (caches w)"
  unfolding activate_world map_keys_caches
  by (rule filter_cong) (auto simp: not_kept_iff caches_keys_def)

lemma deleted_by_activate_prefix:
  "deleted_by_activate h w
     = filter (\<lambda>key. prefix APP_PREFIX key \<and> key \<noteq> CACHE_NAME) (caches_keys w)"
  by (simp add: deleted_by_activate_eq delete_set_filter)

lemma activate_lookup_kept:
  "\<not> prefix APP_PREFIX key \<or> key = CACHE_NAME \<Longrightarrow>
     map_of (caches (snd (handle_activate h w))) key = map_of (caches w) key"
  unfolding activate_caches by (rule map_of_filter_keep) auto

lemma three_caches_keys:
  "caches_keys three_caches_world
     = [''FoodFest-version_01'', ''FoodFest-version_02'', ''other-app-cache'']"
  by (simp add: caches_keys_def three_caches_world_def)

subsection \<open>The cache name\<close>

text \<open>
  C9. The current cache name is the concatenation of the two literal constants
  \<open>APP_PREFIX\<close> and \<open>VERSION\<close>, that is the string \<open>FoodFest-version_01\<close>, and it is
  the name of the cache that install opens and populates: after install the storage holds
  a cache of that name, and install's effect is that of \<open>addAll\<close> on the cache of that
  name.
\<close>

theorem cache_name_is_prefix_version:
  "APP_PREFIX = ''FoodFest-'' \<and> VERSION = ''version_01''
   \<and> CACHE_NAME = APP_PREFIX @ VERSION
   \<and> CACHE_NAME = ''FoodFest-version_01''
   \<and> ''FoodFest-version_01'' \<in> set (caches_keys (snd (handle_install h w)))
   \<and> handle_install h w =
       cache_addAll h ''FoodFest-version_01'' FILES_TO_CACHE (caches_open ''FoodFest-version_01'' w)"
proof -
  have name: "CACHE_NAME = ''FoodFest-version_01''"
    by (simp add: CACHE_NAME_def APP_PREFIX_def VERSION_def)
  have "CACHE_NAME \<in> set (caches_keys (snd (handle_install h w)))"
    by (simp add: caches_keys_install caches_keys_open)
  moreover have "handle_install h w =
      cache_addAll h CACHE_NAME FILES_TO_CACHE (caches_open CACHE_NAME w)"
    by (simp add: handle_install_def)
  ultimately show ?thesis
    unfolding name by (simp add: APP_PREFIX_def VERSION_def CACHE_NAME_def)
qed

subsection \<open>The fetch listener\<close>

text \<open>
  C1. If some cache of the storage holds a response matching the intercepted request, the
  fetch listener answers with a response stored for that request in the storage, and the
  network is not called: the log of network calls is unchanged.
\<close>

theorem fetch_hit_serves_cache:
  assumes "\<exists>e \<in> set (caches w). cache_match (snd e) r \<noteq> None"
  shows "\<exists>resp. fst (handle_fetch h r w) = Inr resp
           \<and> caches_match (caches w) r = Some resp
           \<and> (\<exists>e \<in> set (caches w). cache_match (snd e) r = Some resp)
           \<and> net_log (snd (handle_fetch h r w)) = net_log w"
proof -
  from assms have "caches_match (caches w) r \<noteq> None"
    by (simp add: caches_match_None)
  then obtain resp where hit: "caches_match (caches w) r = Some resp"
    by blast
  from caches_match_Some [OF hit] hit show ?thesis
    by (auto simp: handle_fetch_def)
qed

theorem fetch_hit_serves_cache_witness:
  "cache_match (snd (hd (caches installed_world))) (get_request ''./index.html'') = Some page
   \<and> fst (handle_fetch offline_host (get_request ''./index.html'') installed_world) = Inr page
   \<and> net_log (snd (handle_fetch offline_host (get_request ''./index.html'') installed_world)) = []"
  using fetch_hit_serves_cache [of installed_world "get_request ''./index.html''" offline_host]
  by (auto simp: installed_world_def cache_match_def get_request_def)

text \<open>
  C2. If no cache of the storage holds a response matching the intercepted request, the
  fetch listener hands the request as it is to the network, exactly once, and answers with
  the network's result as it is, fulfilled or rejected.
\<close>

theorem fetch_miss_goes_to_network:
  assumes "\<forall>e \<in> set (caches w). cache_match (snd e) r = None"
  shows "fst (handle_fetch h r w) = network h r
         \<and> net_log (snd (handle_fetch h r w)) = net_log w @ [r]"
proof -
  from assms have "caches_match (caches w) r = None"
    by (simp add: caches_match_None)
  then show ?thesis
    by (simp add: handle_fetch_def fetch_def)
qed

theorem fetch_miss_goes_to_network_witness:
  "caches_match (caches installed_world) (get_request ''./unknown.json'') = None
   \<and> fst (handle_fetch offline_host (get_request ''./unknown.json'') installed_world)
       = Inl NetworkError
   \<and> fst (handle_fetch online_host (get_request ''./unknown.json'') installed_world) = Inr page
   \<and> net_log (snd (handle_fetch online_host (get_request ''./unknown.json'') installed_world))
       = [get_request ''./unknown.json'']"
  using fetch_miss_goes_to_network [of installed_world "get_request ''./unknown.json''" offline_host]
    fetch_miss_goes_to_network [of installed_world "get_request ''./unknown.json''" online_host]
  by (simp add: installed_world_def cache_match_def get_request_def offline_host_def
      online_host_def)

text \<open>
  C8. The fetch listener never changes the cache storage, whether the request is served
  from a cache or from the network.
\<close>

theorem fetch_keeps_cache_storage:
  "caches (snd (handle_fetch h r w)) = caches w"
  by (simp add: handle_fetch_def fetch_def split: option.splits)

subsection \<open>The install listener\<close>

text \<open>
  C3. If fetching any one manifest entry fails during install (the network rejects the
  request, or the response is not ok), the promise given to \<open>waitUntil\<close> is rejected, so
  install is reported failed; and no response has been stored: the storage is as
  \<open>caches.open\<close> left it.
\<close>

theorem install_fails_on_any_failed_fetch:
  assumes "u \<in> set FILES_TO_CACHE"
    and "\<not> (\<exists>resp. network h (get_request u) = Inr resp \<and> response_ok resp)"
  shows "(\<exists>e. fst (handle_install h w) = Inl e)
         \<and> caches (snd (handle_install h w)) = caches (caches_open CACHE_NAME w)"
proof -
  from assms have no: "fst (handle_install h w) \<noteq> Inr ()"
    unfolding handle_install_def addAll_fulfilled_iff by blast
  then have "\<exists>e. fst (handle_install h w) = Inl e"
    by (cases "fst (handle_install h w)") auto
  moreover from no have "caches (snd (handle_install h w)) = caches (caches_open CACHE_NAME w)"
    unfolding handle_install_def by (rule addAll_rejected_caches)
  ultimately show ?thesis by simp
qed

theorem install_fails_on_any_failed_fetch_witness:
  "''./tickets.html'' \<in> set FILES_TO_CACHE
   \<and> network flaky_host (get_request ''./tickets.html'') = Inl NetworkError
   \<and> (\<exists>e. fst (handle_install flaky_host fresh_world) = Inl e)
   \<and> caches (snd (handle_install flaky_host fresh_world)) = [(CACHE_NAME, [])]"
  using install_fails_on_any_failed_fetch [of "''./tickets.html''" flaky_host fresh_world]
  by (simp add: FILES_TO_CACHE_def flaky_host_def get_request_def fresh_world_def
      caches_open_def caches_keys_def)

text \<open>
  C4. Install opens the cache named \<open>CACHE_NAME\<close>, creating it if absent, and requests
  every path of \<open>FILES_TO_CACHE\<close> in one \<open>addAll\<close>. Its promise is fulfilled exactly when
  every manifest entry has been fetched with an ok response, and then every manifest entry
  is stored in the cache \<open>CACHE_NAME\<close> with the response the network gave for it.
\<close>

theorem install_stores_manifest:
  "caches_keys (snd (handle_install h w)) =
     (if CACHE_NAME \<in> set (caches_keys w) then caches_keys w else caches_keys w @ [CACHE_NAME])
   \<and> net_log (snd (handle_install h w)) = net_log w @ map get_request FILES_TO_CACHE
   \<and> (fst (handle_install h w) = Inr () \<longleftrightarrow>
        (\<forall>u \<in> set FILES_TO_CACHE. \<exists>resp. network h (get_request u) = Inr resp \<and> response_ok resp))
   \<and> (fst (handle_install h w) = Inr () \<longrightarrow>
        (\<forall>u \<in> set FILES_TO_CACHE. \<exists>c resp.
            map_of (caches (snd (handle_install h w))) CACHE_NAME = Some c
            \<and> network h (get_request u) = Inr resp \<and> response_ok resp
            \<and> map_of c (get_request u) = Some resp))"
proof -
  have keys: "caches_keys (snd (handle_install h w)) =
     (if CACHE_NAME \<in> set (caches_keys w) then caches_keys w else caches_keys w @ [CACHE_NAME])"
    by (simp add: caches_keys_install caches_keys_open)
  have log: "net_log (snd (handle_install h w)) = net_log w @ map get_request FILES_TO_CACHE"
    by (simp add: handle_install_def addAll_net_log caches_open_def)
  have iff: "fst (handle_install h w) = Inr () \<longleftrightarrow>
        (\<forall>u \<in> set FILES_TO_CACHE. \<exists>resp. network h (get_request u) = Inr resp \<and> response_ok resp)"
    unfolding handle_install_def by (rule addAll_fulfilled_iff)
  have stored: "\<exists>c resp.
            map_of (caches (snd (handle_install h w))) CACHE_NAME = Some c
            \<and> network h (get_request u) = Inr resp \<and> response_ok resp
            \<and> map_of c (get_request u) = Some resp"
    if ok: "fst (handle_install h w) = Inr ()" and u: "u \<in> set FILES_TO_CACHE" for u
  proof -
    obtain c0 where c0: "map_of (caches (caches_open CACHE_NAME w)) CACHE_NAME = Some c0"
      using map_of_open_current by blast
    from ok show ?thesis
      unfolding handle_install_def
      by (rule addAll_stores [OF _ distinct_FILES_TO_CACHE c0 u])
  qed
  from keys log iff stored show ?thesis by blast
qed

theorem install_stores_manifest_witness:
  "fst (handle_install online_host fresh_world) = Inr ()
   \<and> caches_keys (snd (handle_install online_host fresh_world)) = [''FoodFest-version_01'']
   \<and> (\<exists>c. map_of (caches (snd (handle_install online_host fresh_world))) CACHE_NAME = Some c
          \<and> map_of c (get_request ''./dist/app.bundle.js'') = Some page)"
proof -
  have ok: "fst (handle_install online_host fresh_world) = Inr ()"
    using install_stores_manifest [of online_host fresh_world]
    by (simp add: online_host_def page_def response_ok_def)
  have "''./dist/app.bundle.js'' \<in> set FILES_TO_CACHE"
    by (simp add: FILES_TO_CACHE_def)
  with ok install_stores_manifest [of online_host fresh_world]
  have "\<exists>c resp. map_of (caches (snd (handle_install online_host fresh_world))) CACHE_NAME = Some c
          \<and> network online_host (get_request ''./dist/app.bundle.js'') = Inr resp
          \<and> response_ok resp
          \<and> map_of c (get_request ''./dist/app.bundle.js'') = Some resp"
    by blast
  then have "\<exists>c. map_of (caches (snd (handle_install online_host fresh_world))) CACHE_NAME = Some c
          \<and> map_of c (get_request ''./dist/app.bundle.js'') = Some page"
    by (auto simp: online_host_def)
  moreover have "caches_keys (snd (handle_install online_host fresh_world)) = [''FoodFest-version_01'']"
    using install_stores_manifest [of online_host fresh_world]
    by (simp add: fresh_world_def caches_keys_def CACHE_NAME_def APP_PREFIX_def VERSION_def)
  ultimately show ?thesis using ok by blast
qed

text \<open>
  C7. Install changes only the cache named \<open>CACHE_NAME\<close>: a cache of any other name is
  there after install exactly if it was there before, with the same entries, and the storage
  restricted to the other names is unchanged.
\<close>

theorem install_touches_only_current_cache:
  assumes "n \<noteq> CACHE_NAME"
  shows "map_of (caches (snd (handle_install h w))) n = map_of (caches w) n
         \<and> (n \<in> set (caches_keys (snd (handle_install h w))) \<longleftrightarrow> n \<in> set (caches_keys w))
         \<and> filter (\<lambda>e. fst e \<noteq> CACHE_NAME) (caches (snd (handle_install h w)))
             = filter (\<lambda>e. fst e \<noteq> CACHE_NAME) (caches w)"
  using assms
  by (simp add: handle_install_def addAll_other_lookup map_of_open_other caches_keys_addAll
      caches_keys_open addAll_other_caches filter_open_other)

theorem install_touches_only_current_cache_witness:
  "''FoodFest-version_02'' \<noteq> CACHE_NAME
   \<and> map_of (caches (snd (handle_install online_host three_caches_world))) ''FoodFest-version_02''
       = Some [(get_request ''./index.html'', page)]
   \<and> map_of (caches (snd (handle_install flaky_host three_caches_world))) ''other-app-cache''
       = Some [(get_request ''./other.html'', page)]"
  using install_touches_only_current_cache [of "''FoodFest-version_02''" online_host three_caches_world]
    install_touches_only_current_cache [of "''other-app-cache''" flaky_host three_caches_world]
  by (simp add: CACHE_NAME_def APP_PREFIX_def VERSION_def three_caches_world_def)

subsection \<open>The activate listener\<close>

text \<open>
  C5 as stated fails: it says that every cache whose name contains \<open>APP_PREFIX\<close> is
  retained and that on the three example keys everything is kept. The name
  \<open>FoodFest-version_02\<close> contains \<open>APP_PREFIX\<close>, at index 0; that index is falsy, the key
  is not on the keep list, and activate deletes its cache.
\<close>

theorem keep_policy_counterexample:
  "caches_keys three_caches_world
     = [''FoodFest-version_01'', ''FoodFest-version_02'', ''other-app-cache'']
   \<and> sublist APP_PREFIX ''FoodFest-version_02''
   \<and> truthy (string_indexOf ''FoodFest-version_02'' APP_PREFIX) = False
   \<and> ''FoodFest-version_02'' \<notin> set (cacheKeeplist (caches_keys three_caches_world))
   \<and> deleted_by_activate online_host three_caches_world = [''FoodFest-version_02'']
   \<and> caches_keys (snd (handle_activate online_host three_caches_world))
       = [''FoodFest-version_01'', ''other-app-cache'']"
proof -
  have a: "sublist APP_PREFIX ''FoodFest-version_02''"
    by (rule prefix_imp_sublist) (simp add: APP_PREFIX_def)
  have b: "truthy (string_indexOf ''FoodFest-version_02'' APP_PREFIX) = False"
    by (simp add: truthy_def string_indexOf_def APP_PREFIX_def)
  have c: "''FoodFest-version_02'' \<notin> set (cacheKeeplist (caches_keys three_caches_world))"
    by (simp add: three_caches_keys cacheKeeplist_filter APP_PREFIX_def CACHE_NAME_def VERSION_def)
  have d: "deleted_by_activate online_host three_caches_world = [''FoodFest-version_02'']"
    by (simp add: deleted_by_activate_prefix three_caches_keys APP_PREFIX_def CACHE_NAME_def
        VERSION_def)
  have e: "caches_keys (snd (handle_activate online_host three_caches_world))
       = [''FoodFest-version_01'', ''other-app-cache'']"
    by (simp add: caches_keys_def activate_caches three_caches_world_def online_host_def
        APP_PREFIX_def CACHE_NAME_def VERSION_def)
  from three_caches_keys a b c d e show ?thesis by blast
qed

text \<open>
  C5, as amended. The filter keeps a key exactly when the index of \<open>APP_PREFIX\<close> in it is
  not zero. So a key of the key list is kept when \<open>APP_PREFIX\<close> is absent from it or occurs
  in it at a positive index; a key that starts with \<open>APP_PREFIX\<close> has index 0, which is
  falsy, and is on the keep list only if it is \<open>CACHE_NAME\<close>, so a cache of another
  generation named \<open>APP_PREFIX\<close> plus another version is deleted. On the keys
  \<open>FoodFest-version_01\<close>, \<open>FoodFest-version_02\<close>, \<open>other-app-cache\<close>, with the
  script's \<open>CACHE_NAME\<close> \<open>FoodFest-version_01\<close>, the keep list is \<open>other-app-cache\<close>,
  \<open>FoodFest-version_01\<close> and activate deletes \<open>FoodFest-version_02\<close>.
\<close>

theorem keeplist_drops_prefixed_keys:
  "cacheKeeplist keyList
     = filter (\<lambda>key. string_indexOf key APP_PREFIX \<noteq> 0) keyList @ [CACHE_NAME]
   \<and> (key \<in> set keyList \<and> (\<not> sublist APP_PREFIX key
                              \<or> (sublist APP_PREFIX key \<and> \<not> prefix APP_PREFIX key))
        \<longrightarrow> key \<in> set (cacheKeeplist keyList))
   \<and> (prefix APP_PREFIX key \<and> key \<noteq> CACHE_NAME \<longrightarrow> key \<notin> set (cacheKeeplist keyList))
   \<and> (key \<in> set (caches_keys w) \<and> prefix APP_PREFIX key \<and> key \<noteq> CACHE_NAME
        \<longrightarrow> key \<in> set (deleted_by_activate h w))
   \<and> cacheKeeplist [''FoodFest-version_01'', ''FoodFest-version_02'', ''other-app-cache'']
       = [''other-app-cache'', ''FoodFest-version_01'']
   \<and> deleted_by_activate h three_caches_world = [''FoodFest-version_02'']"
proof -
  have keep: "cacheKeeplist keyList
     = filter (\<lambda>key. string_indexOf key APP_PREFIX \<noteq> 0) keyList @ [CACHE_NAME]"
    by (simp add: cacheKeeplist_def truthy_def)
  have away: "key \<in> set (cacheKeeplist keyList)"
    if "key \<in> set keyList \<and> (\<not> sublist APP_PREFIX key
                              \<or> (sublist APP_PREFIX key \<and> \<not> prefix APP_PREFIX key))"
    using that by (auto simp: cacheKeeplist_filter)
  have front: "key \<notin> set (cacheKeeplist keyList)"
    if "prefix APP_PREFIX key \<and> key \<noteq> CACHE_NAME"
    using that by (simp add: cacheKeeplist_filter)
  have gone: "key \<in> set (deleted_by_activate h w)"
    if "key \<in> set (caches_keys w) \<and> prefix APP_PREFIX key \<and> key \<noteq> CACHE_NAME"
    using that by (simp add: deleted_by_activate_prefix)
  have ex1: "cacheKeeplist [''FoodFest-version_01'', ''FoodFest-version_02'', ''other-app-cache'']
       = [''other-app-cache'', ''FoodFest-version_01'']"
    by (simp add: cacheKeeplist_filter APP_PREFIX_def CACHE_NAME_def VERSION_def)
  have ex2: "deleted_by_activate h three_caches_world = [''FoodFest-version_02'']"
    by (simp add: deleted_by_activate_prefix three_caches_keys APP_PREFIX_def CACHE_NAME_def
        VERSION_def)
  from keep away front gone ex1 ex2 show ?thesis by blast
qed

theorem keeplist_drops_prefixed_keys_witness:
  "''my-FoodFest-copy'' \<in> set [''my-FoodFest-copy'', ''FoodFest-version_00'']
   \<and> sublist APP_PREFIX ''my-FoodFest-copy'' \<and> \<not> prefix APP_PREFIX ''my-FoodFest-copy''
   \<and> ''my-FoodFest-copy'' \<in> set (cacheKeeplist [''my-FoodFest-copy'', ''FoodFest-version_00''])
   \<and> prefix APP_PREFIX ''FoodFest-version_00'' \<and> ''FoodFest-version_00'' \<noteq> CACHE_NAME
   \<and> ''FoodFest-version_00'' \<notin> set (cacheKeeplist [''my-FoodFest-copy'', ''FoodFest-version_00''])
   \<and> ''FoodFest-version_02'' \<in> set (caches_keys three_caches_world)
   \<and> ''FoodFest-version_02'' \<in> set (deleted_by_activate readonly_host three_caches_world)"
proof -
  have a: "''my-FoodFest-copy'' \<in> set [''my-FoodFest-copy'', ''FoodFest-version_00'']"
    by simp
  have b: "sublist APP_PREFIX ''my-FoodFest-copy''"
    using sublist_appendI [of "''FoodFest-''" "''my-''" "''copy''"] by (simp add: APP_PREFIX_def)
  have c: "\<not> prefix APP_PREFIX ''my-FoodFest-copy''"
    by (simp add: APP_PREFIX_def)
  have d: "prefix APP_PREFIX ''FoodFest-version_00'' \<and> ''FoodFest-version_00'' \<noteq> CACHE_NAME"
    by (simp add: APP_PREFIX_def CACHE_NAME_def VERSION_def)
  have e: "''FoodFest-version_02'' \<in> set (caches_keys three_caches_world)"
    by (simp add: three_caches_keys)
  have f: "prefix APP_PREFIX ''FoodFest-version_02'' \<and> ''FoodFest-version_02'' \<noteq> CACHE_NAME"
    by (simp add: APP_PREFIX_def CACHE_NAME_def VERSION_def)
  from a b c
    keeplist_drops_prefixed_keys [of "[''my-FoodFest-copy'', ''FoodFest-version_00'']"
      "''my-FoodFest-copy''" three_caches_world readonly_host]
  have g: "''my-FoodFest-copy'' \<in> set (cacheKeeplist [''my-FoodFest-copy'', ''FoodFest-version_00''])"
    by blast
  from d
    keeplist_drops_prefixed_keys [of "[''my-FoodFest-copy'', ''FoodFest-version_00'']"
      "''FoodFest-version_00''" three_caches_world readonly_host]
  have h: "''FoodFest-version_00'' \<notin> set (cacheKeeplist [''my-FoodFest-copy'', ''FoodFest-version_00''])"
    by blast
  from e f
    keeplist_drops_prefixed_keys [of "[]" "''FoodFest-version_02''" three_caches_world readonly_host]
  have i: "''FoodFest-version_02'' \<in> set (deleted_by_activate readonly_host three_caches_world)"
    by blast
  from a b c d e g h i show ?thesis by blast
qed

text \<open>
  C6. The promise that activate hands to \<open>waitUntil\<close> is the \<open>Promise.all\<close> of the
  callback results, so when it settles \<open>caches.delete\<close> has been called for every key of
  the delete set (the keys missing from the keep list), once each and in the order of the key
  list; the promise is fulfilled exactly when none of these deletions fails, with one value
  per key. For an empty key list nothing is deleted, the world is unchanged and the promise
  is fulfilled with the empty list.
\<close>

theorem activate_attempts_every_deletion:
  "delete_log (snd (handle_activate h w)) = delete_log w @ deleted_by_activate h w
   \<and> deleted_by_activate h w
       = filter (\<lambda>key. array_indexOf (cacheKeeplist (caches_keys w)) key = -1) (caches_keys w)
   \<and> ((\<exists>vs. fst (handle_activate h w) = Inr vs) \<longleftrightarrow>
        (\<forall>key \<in> set (deleted_by_activate h w). \<not> delete_fails h key))
   \<and> (\<forall>vs. fst (handle_activate h w) = Inr vs \<longrightarrow> length vs = length (caches_keys w))
   \<and> (caches_keys w = [] \<longrightarrow> handle_activate h w = (Inr [], w))"
proof -
  have log: "delete_log (snd (handle_activate h w)) = delete_log w @ deleted_by_activate h w"
    by (simp add: deleted_by_activate_def activate_world map_keys_delete_log)
  have settled: "(\<exists>vs. fst (handle_activate h w) = Inr vs) \<longleftrightarrow>
        (\<forall>key \<in> set (deleted_by_activate h w). \<not> delete_fails h key)"
    unfolding activate_outcome map_keys_fulfilled deleted_by_activate_eq by auto
  have len: "length vs = length (caches_keys w)" if "fst (handle_activate h w) = Inr vs" for vs
    using that promise_all_length [of _ vs] by (simp add: activate_outcome map_keys_length)
  have empty: "handle_activate h w = (Inr [], w)" if "caches_keys w = []"
    using that by (simp add: handle_activate_def)
  from log deleted_by_activate_eq [of h w] settled len empty show ?thesis by blast
qed

theorem activate_attempts_every_deletion_witness:
  "caches_keys fresh_world = []
   \<and> handle_activate readonly_host fresh_world = (Inr [], fresh_world)
   \<and> delete_log (snd (handle_activate readonly_host three_caches_world)) = [''FoodFest-version_02'']
   \<and> fst (handle_activate readonly_host three_caches_world) = Inl StorageError
   \<and> (\<exists>vs. fst (handle_activate online_host three_caches_world) = Inr vs \<and> length vs = 3)"
proof -
  have keys: "caches_keys three_caches_world
      = [''FoodFest-version_01'', ''FoodFest-version_02'', ''other-app-cache'']"
    by (simp add: caches_keys_def three_caches_world_def)
  have del: "deleted_by_activate h three_caches_world = [''FoodFest-version_02'']" for h
    using activate_attempts_every_deletion [of h three_caches_world]
    by (simp add: keys not_kept_iff APP_PREFIX_def CACHE_NAME_def VERSION_def)
  have a: "caches_keys fresh_world = []"
    by (simp add: caches_keys_def fresh_world_def)
  with activate_attempts_every_deletion [of readonly_host fresh_world]
  have b: "handle_activate readonly_host fresh_world = (Inr [], fresh_world)"
    by simp
  have dl: "delete_log three_caches_world = []"
    by (simp add: three_caches_world_def)
  have c: "delete_log (snd (handle_activate readonly_host three_caches_world)) = [''FoodFest-version_02'']"
    using activate_attempts_every_deletion [of readonly_host three_caches_world]
    by (simp add: del dl)
  have "\<not> (\<exists>vs. fst (handle_activate readonly_host three_caches_world) = Inr vs)"
    using activate_attempts_every_deletion [of readonly_host three_caches_world]
    by (simp add: del readonly_host_def)
  then obtain e where "fst (handle_activate readonly_host three_caches_world) = Inl e"
    by (cases "fst (handle_activate readonly_host three_caches_world)") auto
  then have d: "fst (handle_activate readonly_host three_caches_world) = Inl StorageError"
    by (cases e) (auto simp: handle_activate_def keys delete_unless_kept_def not_kept_iff
        APP_PREFIX_def CACHE_NAME_def VERSION_def caches_delete_def readonly_host_def Let_def
        split: prod.splits sum.splits)
  have e: "\<exists>vs. fst (handle_activate online_host three_caches_world) = Inr vs \<and> length vs = 3"
    using activate_attempts_every_deletion [of online_host three_caches_world]
    by (auto simp: del online_host_def keys)
  from a b c d e show ?thesis by blast
qed

text \<open>
  C10. A run of activate deletes exactly the keys that start with \<open>APP_PREFIX\<close> (index
  of \<open>APP_PREFIX\<close> equal to 0) and differ from \<open>CACHE_NAME\<close>. A key in which
  \<open>APP_PREFIX\<close> is absent (index \<open>-1\<close>) or occurs at a positive index is not deleted and
  its cache is kept with its entries; \<open>CACHE_NAME\<close> is never deleted and its cache is kept
  with its entries. The storage after activate is the storage before without the caches whose
  deletion was requested and did not fail.
\<close>

theorem activate_deletes_prefixed_noncurrent:
  "deleted_by_activate h w
     = filter (\<lambda>key. string_indexOf key APP_PREFIX = 0 \<and> key \<noteq> CACHE_NAME) (caches_keys w)
   \<and> (string_indexOf key APP_PREFIX = 0 \<longleftrightarrow> prefix APP_PREFIX key)
   \<and> (key \<in> set (caches_keys w) \<longrightarrow>
        (key \<in> set (deleted_by_activate h w)
           \<longleftrightarrow> string_indexOf key APP_PREFIX = 0 \<and> key \<noteq> CACHE_NAME))
   \<and> (string_indexOf key APP_PREFIX = -1 \<or> 0 < string_indexOf key APP_PREFIX \<longrightarrow>
        key \<notin> set (deleted_by_activate h w)
        \<and> map_of (caches (snd (handle_activate h w))) key = map_of (caches w) key)
   \<and> CACHE_NAME \<notin> set (deleted_by_activate h w)
   \<and> map_of (caches (snd (handle_activate h w))) CACHE_NAME = map_of (caches w) CACHE_NAME
   \<and> caches (snd (handle_activate h w))
       = filter (\<lambda>e. \<not> (string_indexOf (fst e) APP_PREFIX = 0 \<and> fst e \<noteq> CACHE_NAME
                          \<and> \<not> delete_fails h (fst e))) (caches w)"
proof -
  have del: "deleted_by_activate h w
     = filter (\<lambda>key. string_indexOf key APP_PREFIX = 0 \<and> key \<noteq> CACHE_NAME) (caches_keys w)"
    by (simp add: deleted_by_activate_prefix string_indexOf_zero)
  have zero: "string_indexOf key APP_PREFIX = 0 \<longleftrightarrow> prefix APP_PREFIX key"
    by (rule string_indexOf_zero)
  have mem: "key \<in> set (deleted_by_activate h w)
           \<longleftrightarrow> string_indexOf key APP_PREFIX = 0 \<and> key \<noteq> CACHE_NAME"
    if "key \<in> set (caches_keys w)"
    using that by (simp add: del)
  have kept: "key \<notin> set (deleted_by_activate h w)
        \<and> map_of (caches (snd (handle_activate h w))) key = map_of (caches w) key"
    if "string_indexOf key APP_PREFIX = -1 \<or> 0 < string_indexOf key APP_PREFIX"
  proof -
    from that have nz: "string_indexOf key APP_PREFIX \<noteq> 0" by auto
    then have "\<not> prefix APP_PREFIX key" by (simp add: string_indexOf_zero)
    then have "map_of (caches (snd (handle_activate h w))) key = map_of (caches w) key"
      by (simp add: activate_lookup_kept)
    with nz show ?thesis by (simp add: del)
  qed
  have cur: "CACHE_NAME \<notin> set (deleted_by_activate h w)"
    by (simp add: del)
  have cur_kept: "map_of (caches (snd (handle_activate h w))) CACHE_NAME = map_of (caches w) CACHE_NAME"
    by (simp add: activate_lookup_kept)
  have store: "caches (snd (handle_activate h w))
       = filter (\<lambda>e. \<not> (string_indexOf (fst e) APP_PREFIX = 0 \<and> fst e \<noteq> CACHE_NAME
                          \<and> \<not> delete_fails h (fst e))) (caches w)"
    by (simp add: activate_caches string_indexOf_zero)
  from del zero mem kept cur cur_kept store show ?thesis by blast
qed

theorem activate_deletes_prefixed_noncurrent_witness:
  "''FoodFest-version_02'' \<in> set (caches_keys three_caches_world)
   \<and> string_indexOf ''FoodFest-version_02'' APP_PREFIX = 0
   \<and> ''FoodFest-version_02'' \<in> set (deleted_by_activate online_host three_caches_world)
   \<and> string_indexOf ''other-app-cache'' APP_PREFIX = -1
   \<and> ''other-app-cache'' \<notin> set (deleted_by_activate online_host three_caches_world)
   \<and> map_of (caches (snd (handle_activate online_host three_caches_world))) ''other-app-cache''
       = Some [(get_request ''./other.html'', page)]
   \<and> map_of (caches (snd (handle_activate online_host three_caches_world))) CACHE_NAME
       = Some [(get_request ''./index.html'', page)]"
proof -
  have a: "''FoodFest-version_02'' \<in> set (caches_keys three_caches_world)"
    by (simp add: three_caches_keys)
  have b: "string_indexOf ''FoodFest-version_02'' APP_PREFIX = 0"
    by (simp add: string_indexOf_def APP_PREFIX_def)
  have c: "string_indexOf ''other-app-cache'' APP_PREFIX = -1"
    by (simp add: string_indexOf_def APP_PREFIX_def)
  have ne: "''FoodFest-version_02'' \<noteq> CACHE_NAME"
    by (simp add: CACHE_NAME_def APP_PREFIX_def VERSION_def)
  from a b ne
    activate_deletes_prefixed_noncurrent [of online_host three_caches_world "''FoodFest-version_02''"]
  have d: "''FoodFest-version_02'' \<in> set (deleted_by_activate online_host three_caches_world)"
    by blast
  from c
    activate_deletes_prefixed_noncurrent [of online_host three_caches_world "''other-app-cache''"]
  have e: "''other-app-cache'' \<notin> set (deleted_by_activate online_host three_caches_world)"
    and f: "map_of (caches (snd (handle_activate online_host three_caches_world))) ''other-app-cache''
       = map_of (caches three_caches_world) ''other-app-cache''"
    by blast+
  from activate_deletes_prefixed_noncurrent [of online_host three_caches_world "''x''"]
  have g: "map_of (caches (snd (handle_activate online_host three_caches_world))) CACHE_NAME
       = map_of (caches three_caches_world) CACHE_NAME"
    by blast
  from a b c d e f g show ?thesis
    by (simp add: three_caches_world_def CACHE_NAME_def APP_PREFIX_def VERSION_def)
qed

end
